theory Spec2Isabelle
  imports Main "HOL-Library.Sublist"
begin

section \<open>Characters and character classes\<close>

text \<open>
  Query strings are modelled as \<open>string\<close> (lists of 8-bit characters). The regular
  expressions of \<open>_SearchThread._preprocess\<close> use the classes \<open>\w\<close>, \<open>\W\<close>, \<open>\s\<close> and
  \<open>.\<close>; they are modelled on ASCII, where \<open>\w\<close> is \<open>[A-Za-z0-9_]\<close> and \<open>\s\<close> is
  the set of code points 9..13, 28..31 and 32. Characters above 127 count as neither.
\<close>

definition is_word :: "char \<Rightarrow> bool" where
  "is_word c =
     (let n = (of_char c :: nat)
      in (48 \<le> n \<and> n \<le> 57) \<or> (65 \<le> n \<and> n \<le> 90) \<or> n = 95 \<or> (97 \<le> n \<and> n \<le> 122))"

definition is_space :: "char \<Rightarrow> bool" where
  "is_space c =
     (let n = (of_char c :: nat)
      in (9 \<le> n \<and> n \<le> 13) \<or> (28 \<le> n \<and> n \<le> 32))"

definition is_alnum :: "char \<Rightarrow> bool" where
  \<comment> \<open>\<open>str.isalnum\<close> on one ASCII character\<close>
  "is_alnum c =
     (let n = (of_char c :: nat)
      in (48 \<le> n \<and> n \<le> 57) \<or> (65 \<le> n \<and> n \<le> 90) \<or> (97 \<le> n \<and> n \<le> 122))"

definition is_delim :: "char \<Rightarrow> bool" where
  \<comment> \<open>the class \<open>["/]\<close>\<close>
  "is_delim c = (c = CHR 0x22 \<or> c = CHR ''/'')"

text \<open>A character that is neither a backslash nor a delimiter.\<close>

definition inert :: "char \<Rightarrow> bool" where
  "inert c = (c \<noteq> CHR 0x5C \<and> \<not> is_delim c)"

text \<open>
  The same classes on the eight bits of a character (least significant first), as code
  equations: evaluation then needs no arithmetic on code points.
\<close>

lemma is_word_Char [code]:
  "is_word (Char b0 b1 b2 b3 b4 b5 b6 b7) =
     (\<not> b7 \<and>
      ((\<not> b6 \<and> b5 \<and> b4 \<and> (\<not> b3 \<or> (\<not> b2 \<and> \<not> b1))) \<or>
       (b6 \<and> (b0 \<or> b1 \<or> b2 \<or> b3 \<or> b4) \<and> \<not> (b4 \<and> b3 \<and> (b2 \<or> (b1 \<and> b0)))) \<or>
       (b6 \<and> \<not> b5 \<and> b4 \<and> b3 \<and> b2 \<and> b1 \<and> b0)))"
  by (cases b0; cases b1; cases b2; cases b3; cases b4; cases b5; cases b6; cases b7)
     (simp_all add: is_word_def)

lemma is_space_Char [code]:
  "is_space (Char b0 b1 b2 b3 b4 b5 b6 b7) =
     (\<not> b7 \<and> \<not> b6 \<and>
      ((\<not> b5 \<and> \<not> b4 \<and> b3 \<and> ((\<not> b2 \<and> (b1 \<or> b0)) \<or> (b2 \<and> \<not> b1))) \<or>
       (\<not> b5 \<and> b4 \<and> b3 \<and> b2) \<or>
       (b5 \<and> \<not> b4 \<and> \<not> b3 \<and> \<not> b2 \<and> \<not> b1 \<and> \<not> b0)))"
  by (cases b0; cases b1; cases b2; cases b3; cases b4; cases b5; cases b6; cases b7)
     (simp_all add: is_space_def)

lemma is_alnum_Char [code]:
  "is_alnum (Char b0 b1 b2 b3 b4 b5 b6 b7) =
     (\<not> b7 \<and>
      ((\<not> b6 \<and> b5 \<and> b4 \<and> (\<not> b3 \<or> (\<not> b2 \<and> \<not> b1))) \<or>
       (b6 \<and> (b0 \<or> b1 \<or> b2 \<or> b3 \<or> b4) \<and> \<not> (b4 \<and> b3 \<and> (b2 \<or> (b1 \<and> b0))))))"
  by (cases b0; cases b1; cases b2; cases b3; cases b4; cases b5; cases b6; cases b7)
     (simp_all add: is_alnum_def)

section \<open>The metatag literal pattern\<close>

text \<open>
  The pattern searched by the protection loop is
  \<^verbatim>\<open>(\w+\s*:\s*(["/])((\\\\)*|(.*?[^\\](\\\\)*))\2)\<close>.
  Each function below matches one tail of the pattern at the head of its argument and
  returns the number of characters consumed, or \<open>None\<close>. The greedy quantifiers
  \<open>\w+\<close> and \<open>\s*\<close> are each followed by an item outside their own class, so giving
  characters back can never help and the longest run is the only candidate; the same
  holds for \<open>(\\\\)*\<close>, which is followed by the delimiter. The lazy \<open>.*?\<close> is
  tried with 0, 1, 2, ... characters, none of them a line feed.
\<close>

fun closes_here :: "char \<Rightarrow> string \<Rightarrow> nat option" where
  \<comment> \<open>\<open>(\\\\)*\2\<close>: pairs of backslashes, then the delimiter \<open>d\<close>\<close>
  "closes_here d [] = None"
| "closes_here d [c] = (if c = d then Some 1 else None)"
| "closes_here d (c # c' # cs) =
     (if c = CHR 0x5C \<and> c' = CHR 0x5C then map_option (\<lambda>n. n + 2) (closes_here d cs)
      else if c = d then Some 1 else None)"

fun lazy_body :: "char \<Rightarrow> string \<Rightarrow> nat option" where
  \<comment> \<open>\<open>.*?[^\\](\\\\)*\2\<close>\<close>
  "lazy_body d [] = None"
| "lazy_body d (c # cs) =
     (case (if c \<noteq> CHR 0x5C then closes_here d cs else None) of
        Some n \<Rightarrow> Some (Suc n)
      | None \<Rightarrow> if c = CHR 0x0A then None else map_option Suc (lazy_body d cs))"

definition m_body :: "char \<Rightarrow> string \<Rightarrow> nat option" where
  \<comment> \<open>\<open>((\\\\)*|(.*?[^\\](\\\\)*))\2\<close>: the first alternative is tried first\<close>
  "m_body d s = (case closes_here d s of Some n \<Rightarrow> Some n | None \<Rightarrow> lazy_body d s)"

definition m_delim :: "string \<Rightarrow> nat option" where
  \<comment> \<open>\<open>(["/])\<close> and everything after it\<close>
  "m_delim s =
     (case s of
        [] \<Rightarrow> None
      | d # b \<Rightarrow> if is_delim d then map_option Suc (m_body d b) else None)"

fun m_sp2 :: "string \<Rightarrow> nat option" where
  \<comment> \<open>the second \<open>\s*\<close> and everything after it\<close>
  "m_sp2 [] = None"
| "m_sp2 (c # cs) = (if is_space c then map_option Suc (m_sp2 cs) else m_delim (c # cs))"

definition m_colon :: "string \<Rightarrow> nat option" where
  "m_colon s =
     (case s of
        [] \<Rightarrow> None
      | c # cs \<Rightarrow> if c = CHR '':'' then map_option Suc (m_sp2 cs) else None)"

fun m_sp1 :: "string \<Rightarrow> nat option" where
  \<comment> \<open>the first \<open>\s*\<close> and everything after it\<close>
  "m_sp1 [] = None"
| "m_sp1 (c # cs) = (if is_space c then map_option Suc (m_sp1 cs) else m_colon (c # cs))"

fun m_word :: "string \<Rightarrow> nat option" where
  \<comment> \<open>the rest of \<open>\w+\<close> after its first character, and everything after it\<close>
  "m_word [] = None"
| "m_word (c # cs) = (if is_word c then map_option Suc (m_word cs) else m_sp1 (c # cs))"

definition match_at :: "string \<Rightarrow> nat option" where
  \<comment> \<open>the whole pattern at the head of \<open>s\<close>: the length of the match\<close>
  "match_at s =
     (case s of
        [] \<Rightarrow> None
      | c # cs \<Rightarrow> if is_word c then map_option Suc (m_word cs) else None)"

fun re_search :: "string \<Rightarrow> (nat \<times> string) option" where
  \<comment> \<open>\<open>re.search\<close>: the leftmost start with a match; its position and \<open>match[1]\<close>\<close>
  "re_search [] = None"
| "re_search (c # cs) =
     (case match_at (c # cs) of
        Some n \<Rightarrow> Some (0, take n (c # cs))
      | None \<Rightarrow> map_option (\<lambda>(i, t). (Suc i, t)) (re_search cs))"

section \<open>Sentinels and single replacement\<close>

definition digit_char :: "nat \<Rightarrow> char" where
  "digit_char d = char_of (48 + d)"

fun str_nat :: "nat \<Rightarrow> string" where
  \<comment> \<open>\<open>str(index)\<close> for a non-negative integer\<close>
  "str_nat n = (if n < 10 then [digit_char n] else str_nat (n div 10) @ [digit_char (n mod 10)])"

declare str_nat.simps [simp del]

definition sentinel :: "nat \<Rightarrow> string" where
  \<comment> \<open>\<open>f'%%{index}%%'\<close>\<close>
  "sentinel index = ''%%'' @ str_nat index @ ''%%''"

fun replace_first :: "string \<Rightarrow> string \<Rightarrow> string \<Rightarrow> string" where
  \<comment> \<open>\<open>re.sub(re.escape(old), new, s, count=1)\<close> and \<open>s.replace(old, new, 1)\<close> for a
      replacement free of backslashes: the first occurrence of \<open>old\<close> is replaced\<close>
  "replace_first old new [] = (if old = [] then new else [])"
| "replace_first old new (c # cs) =
     (if prefix old (c # cs) then new @ drop (length old) (c # cs)
      else c # replace_first old new cs)"

definition colons :: "string \<Rightarrow> nat" where
  "colons s = length (filter (\<lambda>c. c = CHR '':'') s)"

section \<open>The protection loop\<close>

text \<open>
  \<^verbatim>\<open>
  meta_tag_values = {}
  index = 0
  while match := re.search(PATTERN, self._query):
      index += 1
      meta_tag_values[index] = match[1]
      self._query = re.sub(re.escape(match[1]), f'%%{index}%%', self._query, count=1)
  \<close>
  The dictionary is an association list in insertion order (the keys are fresh at every
  insertion, and the restoration loop iterates in insertion order).
\<close>

function protect :: "string \<Rightarrow> nat \<Rightarrow> (nat \<times> string) list \<Rightarrow> string \<times> nat \<times> (nat \<times> string) list" where
  "protect query index meta_tag_values =
     (case re_search query of
        None \<Rightarrow> (query, index, meta_tag_values)
      | Some (i, t) \<Rightarrow>
          protect (replace_first t (sentinel (index + 1)) query) (index + 1)
            (meta_tag_values @ [(index + 1, t)]))"
  by pat_completeness auto

subsection \<open>Facts about the pattern matcher\<close>

lemma is_delim_not_backslash: "is_delim d \<Longrightarrow> d \<noteq> CHR 0x5C"
  by (auto simp: is_delim_def)

lemma closes_here_take:
  "closes_here d s = Some n \<Longrightarrow> d \<noteq> CHR 0x5C \<Longrightarrow>
     n \<le> length s \<and> closes_here d (take n s @ r) = Some n"
proof (induction d s arbitrary: n rule: closes_here.induct)
  case (1 d)
  then show ?case by simp
next
  case (2 d c)
  then show ?case by (cases r) (auto split: if_splits)
next
  case (3 d c c' cs)
  show ?case
  proof (cases "c = CHR 0x5C \<and> c' = CHR 0x5C")
    case True
    with 3(2) obtain m where m: "closes_here d cs = Some m" "n = m + 2" by auto
    from 3(1)[OF True m(1) 3(3)] have "m \<le> length cs \<and> closes_here d (take m cs @ r) = Some m" .
    with True m show ?thesis by simp
  next
    case False
    with 3(2) have "c = d" "n = 1" by (auto split: if_splits)
    with False 3(3) show ?thesis by (cases r) auto
  qed
qed

lemma lazy_body_take:
  "lazy_body d s = Some n \<Longrightarrow> d \<noteq> CHR 0x5C \<Longrightarrow>
     n \<le> length s \<and> (\<exists>n'. lazy_body d (take n s @ r) = Some n')"
proof (induction d s arbitrary: n rule: lazy_body.induct)
  case (1 d)
  then show ?case by simp
next
  case (2 d c cs)
  show ?case
  proof (cases "if c \<noteq> CHR 0x5C then closes_here d cs else None")
    case None
    with 2(2) obtain m where m: "c \<noteq> CHR 0x0A" "lazy_body d cs = Some m" "n = Suc m"
      by (auto split: if_splits)
    from 2(1)[OF None m(1) m(2) 2(3)]
    obtain m' where ih: "m \<le> length cs" "lazy_body d (take m cs @ r) = Some m'" by blast
    have "\<exists>n'. lazy_body d (c # take m cs @ r) = Some n'"
      using ih(2) m(1) by (simp split: option.splits)
    with ih m show ?thesis by simp
  next
    case (Some m)
    with 2(2) have n: "n = Suc m" by simp
    from Some have c: "c \<noteq> CHR 0x5C" "closes_here d cs = Some m" by (auto split: if_splits)
    from closes_here_take[OF c(2) 2(3), of r] c n show ?thesis by simp
  qed
qed

lemma m_body_take:
  assumes "m_body d s = Some n" "d \<noteq> CHR 0x5C"
  shows "n \<le> length s \<and> (\<exists>n'. m_body d (take n s @ r) = Some n')"
proof (cases "closes_here d s")
  case None
  with assms(1) have "lazy_body d s = Some n" by (simp add: m_body_def)
  from lazy_body_take[OF this assms(2), of r] show ?thesis
    by (auto simp: m_body_def split: option.splits)
next
  case (Some m)
  with assms(1) have "m = n" by (simp add: m_body_def)
  with closes_here_take[OF Some assms(2), of r] show ?thesis by (simp add: m_body_def)
qed

lemma m_delim_take:
  assumes "m_delim s = Some n"
  shows "n \<le> length s \<and> (\<exists>n'. m_delim (take n s @ r) = Some n')"
proof -
  from assms obtain d b m where s: "s = d # b" "is_delim d" "m_body d b = Some m" "n = Suc m"
    by (auto simp: m_delim_def split: list.splits if_splits)
  from m_body_take[OF s(3) is_delim_not_backslash[OF s(2)], of r] s show ?thesis
    by (auto simp: m_delim_def)
qed

lemma m_sp2_take:
  "m_sp2 s = Some n \<Longrightarrow> n \<le> length s \<and> (\<exists>n'. m_sp2 (take n s @ r) = Some n')"
proof (induction s arbitrary: n)
  case Nil
  then show ?case by simp
next
  case (Cons c cs)
  show ?case
  proof (cases "is_space c")
    case True
    with Cons.prems obtain m where m: "m_sp2 cs = Some m" "n = Suc m" by auto
    from Cons.IH[OF m(1)] True m show ?thesis by auto
  next
    case False
    with Cons.prems have d: "m_delim (c # cs) = Some n" by simp
    then have "0 < n" by (auto simp: m_delim_def split: if_splits)
    then obtain k where k: "n = Suc k" by (cases n) auto
    from m_delim_take[OF d, of r] False k show ?thesis by auto
  qed
qed

lemma m_colon_take:
  assumes "m_colon s = Some n"
  shows "n \<le> length s \<and> (\<exists>n'. m_colon (take n s @ r) = Some n') \<and> CHR '':'' \<in> set (take n s)"
proof -
  from assms obtain cs m where s: "s = CHR '':'' # cs" "m_sp2 cs = Some m" "n = Suc m"
    by (auto simp: m_colon_def split: list.splits if_splits)
  from m_sp2_take[OF s(2), of r] s show ?thesis by (auto simp: m_colon_def)
qed

lemma m_sp1_take:
  "m_sp1 s = Some n \<Longrightarrow>
     n \<le> length s \<and> (\<exists>n'. m_sp1 (take n s @ r) = Some n') \<and> CHR '':'' \<in> set (take n s)"
proof (induction s arbitrary: n)
  case Nil
  then show ?case by simp
next
  case (Cons c cs)
  show ?case
  proof (cases "is_space c")
    case True
    with Cons.prems obtain m where m: "m_sp1 cs = Some m" "n = Suc m" by auto
    from Cons.IH[OF m(1)] True m show ?thesis by auto
  next
    case False
    with Cons.prems have d: "m_colon (c # cs) = Some n" by simp
    then have "0 < n" by (auto simp: m_colon_def split: if_splits)
    then obtain k where k: "n = Suc k" by (cases n) auto
    from m_colon_take[OF d, of r] False k show ?thesis by auto
  qed
qed

lemma m_sp1_pos: "m_sp1 s = Some n \<Longrightarrow> 0 < n"
  by (cases s) (auto simp: m_colon_def split: if_splits)

lemma m_word_take:
  "m_word s = Some n \<Longrightarrow>
     n \<le> length s \<and> (\<exists>n'. m_word (take n s @ r) = Some n') \<and> CHR '':'' \<in> set (take n s)"
proof (induction s arbitrary: n)
  case Nil
  then show ?case by simp
next
  case (Cons c cs)
  show ?case
  proof (cases "is_word c")
    case True
    with Cons.prems obtain m where m: "m_word cs = Some m" "n = Suc m" by auto
    from Cons.IH[OF m(1)] True m show ?thesis by auto
  next
    case False
    with Cons.prems have d: "m_sp1 (c # cs) = Some n" by simp
    from m_sp1_pos[OF d] obtain k where k: "n = Suc k" by (cases n) auto
    from m_sp1_take[OF d, of r] False k show ?thesis by auto
  qed
qed

lemma match_at_take:
  assumes "match_at s = Some n"
  shows "n \<le> length s \<and> (\<exists>n'. match_at (take n s @ r) = Some n') \<and> CHR '':'' \<in> set (take n s)"
proof -
  from assms obtain c cs m where s: "s = c # cs" "is_word c" "m_word cs = Some m" "n = Suc m"
    by (auto simp: match_at_def split: list.splits if_splits)
  from m_word_take[OF s(3), of r] s show ?thesis by (auto simp: match_at_def)
qed

lemma re_search_Some:
  "re_search s = Some (i, t) \<Longrightarrow>
     match_at (drop i s) = Some (length t) \<and> t = take (length t) (drop i s) \<and>
     i + length t \<le> length s \<and> (\<forall>j<i. match_at (drop j s) = None)"
proof (induction s arbitrary: i)
  case Nil
  then show ?case by simp
next
  case (Cons c cs)
  show ?case
  proof (cases "match_at (c # cs)")
    case None
    with Cons.prems obtain k where k: "re_search cs = Some (k, t)" "i = Suc k"
      by auto
    from Cons.IH[OF k(1)] have ih: "match_at (drop k cs) = Some (length t)"
      "t = take (length t) (drop k cs)" "k + length t \<le> length cs"
      "\<forall>j<k. match_at (drop j cs) = None" by auto
    have "\<forall>j<Suc k. match_at (drop j (c # cs)) = None"
    proof (intro allI impI)
      fix j assume "j < Suc k"
      then show "match_at (drop j (c # cs)) = None"
        using None ih(4) by (cases j) auto
    qed
    with ih k show ?thesis by simp
  next
    case (Some n)
    with Cons.prems have it: "i = 0" "t = take n (c # cs)" by auto
    from match_at_take[OF Some, of "[]"] have "n \<le> length (c # cs)" by simp
    with it Some show ?thesis by simp
  qed
qed

lemma re_search_None: "re_search s = None \<Longrightarrow> match_at (drop j s) = None"
proof (induction s arbitrary: j)
  case Nil
  then show ?case by (simp add: match_at_def)
next
  case (Cons c cs)
  then show ?case by (cases j) (auto split: option.splits)
qed

lemma replace_first_prefix: "replace_first old new (old @ b) = new @ b"
proof (cases "old @ b")
  case Nil
  then show ?thesis by simp
next
  case (Cons c cs)
  have "prefix old (old @ b)" by simp
  then have "replace_first old new (c # cs) = new @ drop (length old) (c # cs)"
    unfolding Cons by simp
  then show ?thesis unfolding Cons[symmetric] by simp
qed

lemma replace_first_at:
  "s = a @ old @ b \<Longrightarrow> (\<forall>j<length a. \<not> prefix old (drop j s)) \<Longrightarrow>
     replace_first old new s = a @ new @ b"
proof (induction a arbitrary: s)
  case Nil
  then show ?case by (simp add: replace_first_prefix)
next
  case (Cons x a)
  from Cons.prems(1) have s: "s = x # (a @ old @ b)" by simp
  from Cons.prems(2)[rule_format, of 0] have np: "\<not> prefix old s" by simp
  have "\<forall>j<length a. \<not> prefix old (drop j (a @ old @ b))"
  proof (intro allI impI)
    fix j assume "j < length a"
    then have "Suc j < length (x # a)" by simp
    from Cons.prems(2)[rule_format, OF this] s show "\<not> prefix old (drop j (a @ old @ b))" by simp
  qed
  from Cons.IH[OF refl this] np s show ?case by simp
qed

lemma replace_first_occurs:
  "s = a @ old @ b \<Longrightarrow> \<exists>a' b'. s = a' @ old @ b' \<and> replace_first old new s = a' @ new @ b'"
proof (induction a arbitrary: s)
  case Nil
  then have "s = [] @ old @ b \<and> replace_first old new s = [] @ new @ b"
    by (simp add: replace_first_prefix)
  then show ?case by blast
next
  case (Cons x a)
  from Cons.prems have s: "s = x # (a @ old @ b)" by simp
  show ?case
  proof (cases "prefix old s")
    case True
    then obtain r where r: "s = old @ r" by (auto simp: prefix_def)
    then have "replace_first old new s = new @ r" by (simp add: replace_first_prefix)
    with r show ?thesis by (intro exI[of _ "[]"] exI[of _ r]) simp
  next
    case False
    from Cons.IH[OF refl] obtain a' b' where
      ab: "a @ old @ b = a' @ old @ b'" "replace_first old new (a @ old @ b) = a' @ new @ b'"
      by blast
    with False s show ?thesis by (intro exI[of _ "x # a'"] exI[of _ b']) simp
  qed
qed

lemma digit_char_not_colon: "d < 10 \<Longrightarrow> digit_char d \<noteq> CHR '':''"
proof
  assume d: "d < 10" and eq: "digit_char d = CHR '':''"
  from eq have "(of_char (digit_char d) :: nat) = of_char CHR '':''" by simp
  then have "(48 + d) mod 256 = 58" by (simp add: digit_char_def)
  with d show False by simp
qed

lemma str_nat_no_colon: "CHR '':'' \<notin> set (str_nat n)"
proof (induction n rule: str_nat.induct)
  case (1 n)
  show ?case
  proof (cases "n < 10")
    case True
    then show ?thesis using digit_char_not_colon[of n] by (subst str_nat.simps) simp
  next
    case False
    have "n mod 10 < 10" by simp
    from digit_char_not_colon[OF this] 1[OF False] False show ?thesis
      by (subst str_nat.simps) simp
  qed
qed

lemma colons_append [simp]: "colons (a @ b) = colons a + colons b"
  by (simp add: colons_def)

lemma colons_pos: "CHR '':'' \<in> set t \<Longrightarrow> 0 < colons t"
  by (induction t) (auto simp: colons_def)

lemma colons_zero: "CHR '':'' \<notin> set t \<Longrightarrow> colons t = 0"
  by (induction t) (auto simp: colons_def)

lemma colons_sentinel [simp]: "colons (sentinel k) = 0"
  by (rule colons_zero) (simp add: sentinel_def str_nat_no_colon)

lemma re_search_split:
  assumes "re_search s = Some (i, t)"
  shows "s = take i s @ t @ drop (i + length t) s"
proof -
  from re_search_Some[OF assms] have t: "t = take (length t) (drop i s)" by simp
  have "s = take i s @ take (length t) (drop i s) @ drop (length t) (drop i s)"
    by (metis append_take_drop_id)
  moreover have "drop (length t) (drop i s) = drop (i + length t) s"
    by (simp add: add.commute)
  ultimately show ?thesis using t by metis
qed

lemma re_search_colon:
  assumes "re_search s = Some (i, t)"
  shows "CHR '':'' \<in> set t"
proof -
  from re_search_Some[OF assms] have m: "match_at (drop i s) = Some (length t)"
    and t: "t = take (length t) (drop i s)" by simp_all
  from match_at_take[OF m, of "[]"] t show ?thesis by simp
qed

lemma re_search_first_occurrence:
  assumes "re_search s = Some (i, t)" "j < i"
  shows "\<not> prefix t (drop j s)"
proof
  assume "prefix t (drop j s)"
  then obtain r where r: "drop j s = t @ r" by (auto simp: prefix_def)
  from re_search_Some[OF assms(1)] have m: "match_at (drop i s) = Some (length t)"
    and t: "t = take (length t) (drop i s)" and l: "\<forall>j<i. match_at (drop j s) = None"
    by simp_all
  from match_at_take[OF m, of r] t obtain n' where "match_at (t @ r) = Some n'" by auto
  moreover from l assms(2) have "match_at (drop j s) = None" by blast
  ultimately show False using r by simp
qed

lemma protect_replace:
  assumes "re_search s = Some (i, t)"
  shows "replace_first t new s = take i s @ new @ drop (i + length t) s"
proof (rule replace_first_at)
  show "s = take i s @ t @ drop (i + length t) s" by (rule re_search_split[OF assms])
next
  from re_search_Some[OF assms] have "i \<le> length s" by simp
  then have "length (take i s) = i" by simp
  with re_search_first_occurrence[OF assms]
  show "\<forall>j<length (take i s). \<not> prefix t (drop j s)" by simp
qed

lemma protect_decreases:
  assumes "re_search s = Some (i, t)"
  shows "colons (replace_first t (sentinel k) s) < colons s"
proof -
  have "colons s = colons (take i s @ t @ drop (i + length t) s)"
    using re_search_split[OF assms] by simp
  moreover have "0 < colons t" by (rule colons_pos[OF re_search_colon[OF assms]])
  ultimately show ?thesis by (simp add: protect_replace[OF assms])
qed

termination protect
proof (relation "measure (\<lambda>(query, index, meta_tag_values). colons query)")
  show "wf (measure (\<lambda>(query, index, meta_tag_values). colons query))" by simp
next
  fix query :: string and index :: nat and meta_tag_values :: "(nat \<times> string) list"
    and x2 :: "nat \<times> string" and i t
  assume "re_search query = Some x2" "(i, t) = x2"
  then have "re_search query = Some (i, t)" by simp
  from protect_decreases[OF this, of "index + 1"]
  show "((replace_first t (sentinel (index + 1)) query, index + 1,
          meta_tag_values @ [(index + 1, t)]), query, index, meta_tag_values)
        \<in> measure (\<lambda>(query, index, meta_tag_values). colons query)"
    by simp
qed

declare protect.simps [simp del]

section \<open>Restoration\<close>

text \<open>
  \<^verbatim>\<open>
  for index, value in meta_tag_values.items():
      self._query = self._query.replace(f'%%{index}%%', value, 1)
  \<close>
\<close>

fun restore :: "(nat \<times> string) list \<Rightarrow> string \<Rightarrow> string" where
  "restore [] query = query"
| "restore ((index, v) # rest) query = restore rest (replace_first (sentinel index) v query)"

section \<open>Compound-tag expansion\<close>

record compound_tag =
  label :: string
  defn :: string

text \<open>
  One substitution \<^verbatim>\<open>re.sub(fr'(\W|^){tag.label}(\W|$)', fr'\1({tag.definition})\2', query)\<close>.
  Tag labels are restricted to the label charset (\<open>\w+\<close>) when they are created and a
  definition is a query text; the model takes the label as literal text in the pattern
  and the definition as literal text in the replacement, which is what \<open>re\<close> does for a
  label without pattern metacharacters and a definition without backslashes.

  \<open>re.sub\<close> scans from left to right; the flag \<open>start\<close> says that the head of the
  argument is position 0 of the subject, where \<open>^\<close> matches. At each position the
  alternative \<open>\W\<close> of the first group is tried before \<open>^\<close>, and \<open>\W\<close> of the last
  group before \<open>$\<close>. A match consumes both boundary characters, and the scan resumes
  after the match.
\<close>

definition boundary :: "string \<Rightarrow> bool" where
  \<comment> \<open>\<open>(\W|$)\<close> matches at the head of \<open>r\<close>\<close>
  "boundary r = (case r of [] \<Rightarrow> True | c # _ \<Rightarrow> \<not> is_word c)"

fun re_sub_tag :: "string \<Rightarrow> string \<Rightarrow> bool \<Rightarrow> string \<Rightarrow> string" where
  "re_sub_tag L D start [] = (if start \<and> L = [] then ''('' @ D @ '')'' else [])"
| "re_sub_tag L D start (c # cs) =
     (if \<not> is_word c \<and> prefix L cs \<and> boundary (drop (length L) cs)
      then c # ''('' @ D @ '')'' @ take 1 (drop (length L) cs) @
             re_sub_tag L D False (drop (Suc (length L)) cs)
      else if start \<and> prefix L (c # cs) \<and> boundary (drop (length L) (c # cs))
      then ''('' @ D @ '')'' @ take 1 (drop (length L) (c # cs)) @
             re_sub_tag L D False (drop (length L) cs)
      else c # re_sub_tag L D False cs)"

definition expand_pass :: "compound_tag list \<Rightarrow> string \<Rightarrow> string" where
  \<comment> \<open>\<open>for tag in compound_tags: self._query = re.sub(...)\<close>\<close>
  "expand_pass compound_tags query =
     fold (\<lambda>tag q. re_sub_tag (label tag) (defn tag) True q) compound_tags query"

definition MAXIMUM_DEPTH :: nat where
  "MAXIMUM_DEPTH = 20"

text \<open>
  \<^verbatim>\<open>
  previous_query = ''
  depth = 0
  while self._query != previous_query:
      previous_query = self._query
      for tag in compound_tags: ...
      depth += 1
      if depth >= self._MAXIMUM_DEPTH:
          self._error = _t('thread.search.error.max_recursion', max_depth=self._MAXIMUM_DEPTH)
          return
  \<close>
  The loop returns the query, the number of passes made and whether the depth error
  was raised.
\<close>

function expand_loop ::
  "compound_tag list \<Rightarrow> nat \<Rightarrow> string \<Rightarrow> string \<Rightarrow> nat \<Rightarrow> string \<times> nat \<times> bool" where
  "expand_loop compound_tags max_depth query previous_query depth =
     (if query \<noteq> previous_query then
        (let query' = expand_pass compound_tags query; depth' = depth + 1
         in if depth' \<ge> max_depth then (query', depth', True)
            else expand_loop compound_tags max_depth query' query depth')
      else (query, depth, False))"
  by pat_completeness auto
termination
  by (relation "measure (\<lambda>(compound_tags, max_depth, query, previous_query, depth). max_depth - depth)")
    auto

declare expand_loop.simps [simp del]

subsection \<open>Mentions and references\<close>





definition parens :: "string \<Rightarrow> nat" where
  "parens s = length (filter (\<lambda>c. c = CHR ''('') s)"

section \<open>The search thread\<close>

text \<open>
  The collaborators of \<open>_SearchThread\<close> that are not part of this file are parameters:
  the compound tags returned by \<open>TagsDao.get_all_tags\<close>, \<open>queries.query_to_sympy\<close>
  (\<open>Inl msg\<close> stands for \<open>raise ValueError(msg)\<close>), the two queries of \<open>ImageDao\<close>
  (\<open>None\<close> is Python's \<open>None\<close>) and the two translated messages.
\<close>

record ('e, 'i) env =
  get_all_tags :: "compound_tag list"
  query_to_sympy :: "string \<Rightarrow> bool \<Rightarrow> string + 'e"
  get_images :: "'e \<Rightarrow> 'i list option"
  get_tagless_images :: "'i list option"
  t_max_recursion :: string
  t_image_loading_error :: string

text \<open>
  The calls a run makes to its collaborators are recorded in the field \<open>calls\<close>, which
  the source does not have: it is there to state which collaborators a run invokes.
\<close>

datatype call =
  Preprocess
  | QueryToSympy string bool
  | GetImages
  | GetTaglessImages
  | CloseDao

record 'i search_thread =
  query :: string
  tagless_images :: bool
  images :: "'i list option"
  error :: "string option"
  calls :: "call list"

definition init :: "string \<Rightarrow> bool \<Rightarrow> 'i search_thread" where
  \<comment> \<open>\<open>__init__\<close>\<close>
  "init q tagless =
     \<lparr>query = q, tagless_images = tagless, images = Some [], error = None, calls = []\<rparr>"

definition preprocess :: "('e, 'i) env \<Rightarrow> 'i search_thread \<Rightarrow> 'i search_thread" where
  "preprocess env th =
     (case protect (query th) 0 [] of
        (q1, index, meta_tag_values) \<Rightarrow>
          (case expand_loop (get_all_tags env) MAXIMUM_DEPTH q1 [] 0 of
             (q2, depth, exceeded) \<Rightarrow>
               if exceeded then th\<lparr>query := q2, error := Some (t_max_recursion env)\<rparr>
               else th\<lparr>query := restore meta_tag_values q2\<rparr>))"

definition falsy :: "string option \<Rightarrow> bool" where
  \<comment> \<open>\<open>not self._error\<close>: \<open>None\<close> and the empty string are false\<close>
  "falsy e = (e = None \<or> e = Some [])"

definition store_images :: "('e, 'i) env \<Rightarrow> 'i list option \<Rightarrow> 'i search_thread \<Rightarrow> 'i search_thread" where
  \<comment> \<open>the end of the \<open>else\<close> branch of \<open>run\<close>: close the DAO, check the result\<close>
  "store_images env imgs th =
     (let th' = th\<lparr>images := imgs, calls := calls th @ [CloseDao]\<rparr>
      in if imgs = None then th'\<lparr>error := Some (t_image_loading_error env)\<rparr> else th')"

definition run :: "('e, 'i) env \<Rightarrow> 'i search_thread \<Rightarrow> 'i search_thread" where
  "run env th =
     (let th1 = (if \<not> tagless_images th
                 then preprocess env (th\<lparr>calls := calls th @ [Preprocess]\<rparr>) else th)
      in if falsy (error th1) then
           (if \<not> tagless_images th1 then
              (let th2 = th1\<lparr>calls := calls th1 @ [QueryToSympy (query th1) True]\<rparr>
               in case query_to_sympy env (query th1) True of
                    Inl msg \<Rightarrow> th2\<lparr>error := Some msg\<rparr>
                  | Inr expr \<Rightarrow>
                      store_images env (get_images env expr)
                        (th2\<lparr>calls := calls th2 @ [GetImages]\<rparr>))
            else store_images env (get_tagless_images env)
                   (th1\<lparr>calls := calls th1 @ [GetTaglessImages]\<rparr>))
         else th1)"


section \<open>Validation of a compound-tag cell\<close>

text \<open>
  \<open>_TagsTab._check_cell_format\<close> and its override in \<open>CompoundTagsTab\<close>. The table,
  \<open>model.Tag.LABEL_PATTERN\<close>, \<open>TagsDao.tag_exists\<close> and the translated messages are
  parameters; column 0 of a row holds the integer identifier the tab wrote itself.
\<close>

record cells =
  item_text :: "nat \<Rightarrow> nat \<Rightarrow> string"
  row_tag_id :: "nat \<Rightarrow> int"
  label_pattern_match :: "string \<Rightarrow> bool"
  tag_exists :: "int \<Rightarrow> string \<Rightarrow> bool"
  t_invalid_tag_name :: string
  t_duplicate_tag_name :: string

definition tags_check_cell_format :: "cells \<Rightarrow> nat \<Rightarrow> nat \<Rightarrow> bool \<times> string" where
  "tags_check_cell_format tab row col =
     (let text = item_text tab row col
      in if col = 1 then
           (if \<not> label_pattern_match tab text then (False, t_invalid_tag_name tab)
            else if tag_exists tab (row_tag_id tab row) text then (False, t_duplicate_tag_name tab)
            else (True, []))
         else (True, []))"

definition check_cell_format ::
  "cells \<Rightarrow> (string \<Rightarrow> bool \<Rightarrow> string + 'e) \<Rightarrow> nat \<Rightarrow> nat \<Rightarrow> bool \<times> string" where
  "check_cell_format tab q2s row col =
     (case tags_check_cell_format tab row col of
        (ok, message) \<Rightarrow>
          if \<not> ok then (False, message)
          else if col = 2 then
            (case q2s (item_text tab row 2) False of
               Inl msg \<Rightarrow> (False, msg)
             | Inr expr \<Rightarrow> (True, []))
          else (True, []))"

section \<open>Validation of the tags of an image\<close>











section \<open>Example collaborators\<close>

text \<open>Concrete collaborators, used to instantiate the theorems below.\<close>

definition demo_env :: "(string, nat) env" where
  "demo_env =
     \<lparr>get_all_tags = [\<lparr>label = ''pet'', defn = ''cat OR dog''\<rparr>,
                      \<lparr>label = ''loop'', defn = ''loop AND cat''\<rparr>],
      query_to_sympy = (\<lambda>s simplify. if s = ''('' then Inl ''syntax error'' else Inr s),
      get_images = (\<lambda>e. if e = ''nothing'' then None else Some [1, 2]),
      get_tagless_images = Some [3],
      t_max_recursion = ''max recursion'',
      t_image_loading_error = ''image loading error''\<rparr>"

definition demo_cells :: cells where
  "demo_cells =
     \<lparr>item_text = (\<lambda>row col. if col = 2 then ''cat OR dog'' else ''pet''),
      row_tag_id = (\<lambda>row. 1),
      label_pattern_match = (\<lambda>s. s \<noteq> [] \<and> list_all is_word s),
      tag_exists = (\<lambda>i s. False),
      t_invalid_tag_name = ''invalid tag name'',
      t_duplicate_tag_name = ''duplicate tag name''\<rparr>"


definition dq :: char where
  "dq = CHR 0x22"


definition nested_literal :: string where
  \<comment> \<open>a regex literal whose value holds a quoted literal with a line feed\<close>
  "nested_literal = ''k:/x a:'' @ [dq, CHR 0x0A, dq] @ '' /''"

definition percent_query :: string where
  "percent_query = ''%%1%% a:'' @ [dq] @ ''x'' @ [dq]"

definition quoted_x :: string where
  "quoted_x = ''a:'' @ [dq] @ ''x'' @ [dq]"





section \<open>Termination of the protection loop\<close>

lemma protect_bound:
  "protect qry index m = (q', n, m') \<Longrightarrow>
     index \<le> n \<and> n - index \<le> colons qry \<and> length m' = length m + (n - index) \<and>
     re_search q' = None"
proof (induction qry index m arbitrary: q' n m' rule: protect.induct)
  case (1 qry index m)
  show ?case
  proof (cases "re_search qry")
    case None
    with "1.prems" show ?thesis by (simp add: protect.simps)
  next
    case (Some x)
    obtain i t where x: "x = (i, t)" by (cases x)
    let ?q = "replace_first t (sentinel (index + 1)) qry"
    from "1.prems" Some x have p: "protect ?q (index + 1) (m @ [(index + 1, t)]) = (q', n, m')"
      by (simp add: protect.simps)
    from "1.IH"[OF Some x[symmetric] p]
    have ih: "index + 1 \<le> n" "n - (index + 1) \<le> colons ?q"
      "length m' = length (m @ [(index + 1, t)]) + (n - (index + 1))" "re_search q' = None"
      by simp_all
    from protect_decreases[of qry i t "index + 1"] Some x have c: "colons ?q < colons qry"
      by simp
    have "n - index \<le> colons qry" using ih(1,2) c by arith
    moreover have "length m' = length m + (n - index)" using ih(1,3) by simp
    moreover have "index \<le> n" using ih(1) by simp
    ultimately show ?thesis using ih(4) by simp
  qed
qed

text \<open>
  Claim C9. The protection loop terminates. \<open>protect\<close> is a total function whose
  termination proof uses the number of colons of the working string as the measure:
  every match contains a colon (\<open>re_search_colon\<close>), no sentinel does
  (\<open>colons_sentinel\<close>), so every iteration removes at least one colon
  (\<open>protect_decreases\<close>). Started as the source starts it (index 0, empty dictionary),
  the loop ends in a string with no match left, after a number of iterations (the final
  index, which is also the number of stored literals) that is at most the number of
  colons of the input. A sentinel has no colon, a matched literal has one, and one
  iteration on any working string leaves fewer colons than it found.
\<close>

theorem protect_iterations_bounded:
  "(\<exists>q' n m. protect qry 0 [] = (q', n, m) \<and> n \<le> colons qry \<and> length m = n \<and>
      re_search q' = None)
   \<and> colons (sentinel k) = 0
   \<and> (case re_search s of
        None \<Rightarrow> True
      | Some (i, t) \<Rightarrow> 0 < colons t \<and> colons (replace_first t (sentinel k) s) < colons s)"
proof (intro conjI)
  obtain q' n m where p: "protect qry 0 [] = (q', n, m)" by (cases "protect qry 0 []") auto
  from protect_bound[OF p] p
  show "\<exists>q' n m. protect qry 0 [] = (q', n, m) \<and> n \<le> colons qry \<and> length m = n \<and>
      re_search q' = None" by simp
  show "colons (sentinel k) = 0" by simp
  show "case re_search s of
        None \<Rightarrow> True
      | Some (i, t) \<Rightarrow> 0 < colons t \<and> colons (replace_first t (sentinel k) s) < colons s"
  proof (cases "re_search s")
    case None
    then show ?thesis by simp
  next
    case (Some x)
    obtain i t where x: "x = (i, t)" by (cases x)
    from Some x have r: "re_search s = Some (i, t)" by simp
    from colons_pos[OF re_search_colon[OF r]] protect_decreases[OF r, of k] r
    show ?thesis by simp
  qed
qed

theorem protect_iterations_bounded_witness:
  "(\<exists>q' n m. protect ''a:/x/ b:/y/'' 0 [] = (q', n, m) \<and> n \<le> 2 \<and> length m = n \<and>
      re_search q' = None)
   \<and> colons (replace_first ''a:/x/'' (sentinel 1) ''a:/x/ b:/y/'') < colons ''a:/x/ b:/y/''"
proof -
  have c: "colons ''a:/x/ b:/y/'' = 2" by (simp add: colons_def)
  have r: "re_search ''a:/x/ b:/y/'' = Some (0, ''a:/x/'')" by code_simp
  note t = protect_iterations_bounded[of "''a:/x/ b:/y/''" 1 "''a:/x/ b:/y/''"]
  from t have "\<exists>q' n m. protect ''a:/x/ b:/y/'' 0 [] = (q', n, m) \<and> n \<le> 2 \<and> length m = n \<and>
      re_search q' = None" unfolding c by blast
  moreover from t have "colons (replace_first ''a:/x/'' (sentinel 1) ''a:/x/ b:/y/'')
      < colons ''a:/x/ b:/y/''" unfolding r by simp
  ultimately show ?thesis by blast
qed

section \<open>The run of a search thread\<close>

lemma preprocess_calls [simp]: "calls (preprocess env th) = calls th"
  by (simp add: preprocess_def split: prod.splits)

lemma preprocess_tagless [simp]: "tagless_images (preprocess env th) = tagless_images th"
  by (simp add: preprocess_def split: prod.splits)

lemma preprocess_calls_update:
  "preprocess env (th\<lparr>calls := c\<rparr>) = (preprocess env th)\<lparr>calls := c\<rparr>"
  by (simp add: preprocess_def split: prod.splits)

lemma init_fields [simp]:
  "query (init q tagless) = q" "tagless_images (init q tagless) = tagless" "error (init q tagless) = None"
  "calls (init q tagless) = []" "images (init q tagless) = Some []"
  by (simp_all add: init_def)

text \<open>
  Claim C6. A run with \<open>tagless_images\<close> set makes exactly two calls to its
  collaborators, \<open>get_tagless_images\<close> and the closing of the DAO: neither
  \<open>_preprocess\<close> nor \<open>query_to_sympy\<close> is called, the query text is left as it was
  given, and the images are what \<open>get_tagless_images\<close> returned (with the image
  loading error when that is \<open>None\<close>).
\<close>

theorem tagless_bypasses_compiler:
  "run env (init q True) =
     \<lparr>query = q, tagless_images = True, images = get_tagless_images env,
      error = (if get_tagless_images env = None then Some (t_image_loading_error env) else None),
      calls = [GetTaglessImages, CloseDao]\<rparr>"
  by (simp add: run_def init_def falsy_def store_images_def Let_def)

theorem tagless_bypasses_compiler_witness:
  "run demo_env (init ''cat'' True) =
     \<lparr>query = ''cat'', tagless_images = True, images = Some [3], error = None,
      calls = [GetTaglessImages, CloseDao]\<rparr>"
  using tagless_bypasses_compiler[of demo_env "''cat''"] by (simp add: demo_env_def)

text \<open>
  Claim C7. For the definition column (column 2) of the compound-tags tab,
  \<open>_check_cell_format\<close> is decided by \<open>query_to_sympy(text, simplify=False)\<close> alone:
  the cell is accepted exactly when that call raises no \<open>ValueError\<close>, and a rejected
  cell carries the message of the error. A search run never calls \<open>query_to_sympy\<close> with
  \<open>simplify=False\<close>; when it is not a tagless search and preprocessing left no error,
  it calls it with \<open>simplify=True\<close> on the preprocessed query.
\<close>

theorem definition_check_parse_only:
  "check_cell_format tab q2s row 2 =
     (case q2s (item_text tab row 2) False of Inl msg \<Rightarrow> (False, msg) | Inr e \<Rightarrow> (True, []))
   \<and> (fst (check_cell_format tab q2s row 2) \<longleftrightarrow> (\<exists>e. q2s (item_text tab row 2) False = Inr e))
   \<and> QueryToSympy s False \<notin> set (calls (run env (init q tagless)))
   \<and> (\<not> tagless \<and> falsy (error (preprocess env (init q tagless))) \<longrightarrow>
        QueryToSympy (query (preprocess env (init q tagless))) True \<in> set (calls (run env (init q tagless))))"
proof (intro conjI)
  show eq: "check_cell_format tab q2s row 2 =
     (case q2s (item_text tab row 2) False of Inl msg \<Rightarrow> (False, msg) | Inr e \<Rightarrow> (True, []))"
    by (simp add: check_cell_format_def tags_check_cell_format_def)
  show "fst (check_cell_format tab q2s row 2) \<longleftrightarrow> (\<exists>e. q2s (item_text tab row 2) False = Inr e)"
    unfolding eq by (cases "q2s (item_text tab row 2) False") simp_all
  show "QueryToSympy s False \<notin> set (calls (run env (init q tagless)))"
    by (auto simp: run_def Let_def store_images_def split: sum.splits)
  show "\<not> tagless \<and> falsy (error (preprocess env (init q tagless))) \<longrightarrow>
        QueryToSympy (query (preprocess env (init q tagless))) True \<in> set (calls (run env (init q tagless)))"
    by (auto simp: run_def Let_def store_images_def preprocess_calls_update split: sum.splits)
qed

lemma demo_preprocess_pet:
  "preprocess demo_env (init ''pet'' False) =
     \<lparr>query = ''(cat OR dog)'', tagless_images = False, images = Some [], error = None, calls = []\<rparr>"
  by code_simp

theorem definition_check_parse_only_witness:
  "fst (check_cell_format demo_cells (query_to_sympy demo_env) 0 2)
   \<and> QueryToSympy ''(cat OR dog)'' True \<in> set (calls (run demo_env (init ''pet'' False)))"
proof -
  have h: "\<not> False \<and> falsy (error (preprocess demo_env (init ''pet'' False :: nat search_thread)))"
    by (simp add: demo_preprocess_pet falsy_def)
  have e: "\<exists>e. query_to_sympy demo_env (item_text demo_cells 0 2) False = Inr e"
    by (simp add: demo_env_def demo_cells_def)
  note t = definition_check_parse_only[of demo_cells "query_to_sympy demo_env" 0 "''x''"
      demo_env "''pet''" False]
  from t e have "fst (check_cell_format demo_cells (query_to_sympy demo_env) 0 2)" by blast
  moreover from t h have "QueryToSympy (query (preprocess demo_env (init ''pet'' False))) True
      \<in> set (calls (run demo_env (init ''pet'' False)))" by blast
  ultimately show ?thesis by (simp add: demo_preprocess_pet)
qed








section \<open>The tags entered for an image\<close>









section \<open>The expansion loop and its depth bound\<close>








section \<open>The match after a replacement\<close>

text \<open>
  After a literal without a line feed has been replaced by its sentinel, no match
  starts inside the sentinel (its digits are followed by a percent sign), and a match
  that started before the sentinel and ran into it would already have been a match
  before the replacement: the value of a literal may hold any text without a line feed,
  and the replaced literal, like the sentinel, ends in a character that is not a
  backslash.
\<close>

lemma digit_char_word: "d < 10 \<Longrightarrow> is_word (digit_char d)"
proof -
  assume d: "d < 10"
  then have "(of_char (digit_char d) :: nat) = 48 + d" by (simp add: digit_char_def)
  with d show ?thesis by (simp add: is_word_def)
qed

lemma str_nat_word: "list_all is_word (str_nat n) \<and> str_nat n \<noteq> []"
proof (induction n rule: str_nat.induct)
  case (1 n)
  show ?case
  proof (cases "n < 10")
    case True
    then show ?thesis using digit_char_word[of n] by (subst (1 2) str_nat.simps) simp
  next
    case False
    have "n mod 10 < 10" by simp
    from digit_char_word[OF this] 1[OF False] False show ?thesis
      by (subst (1 2) str_nat.simps) simp
  qed
qed

lemma is_word_inert: "is_word c \<Longrightarrow> inert c"
  by (auto simp: inert_def is_word_def is_delim_def)

lemma percent_facts:
  "\<not> is_word CHR ''%''" "\<not> is_space CHR ''%''" "\<not> is_delim CHR ''%''" "inert CHR ''%''"
  by (simp_all add: is_word_def is_space_def is_delim_def inert_def)

lemma sentinel_inert: "list_all inert (sentinel k)"
  using str_nat_word[of k]
  by (auto simp: sentinel_def percent_facts list_all_iff intro: is_word_inert)

lemma sentinel_Cons: "\<exists>z. sentinel k = CHR ''%'' # z"
  by (simp add: sentinel_def)

lemma m_word_percent: "list_all is_word w \<Longrightarrow> m_word (w @ CHR ''%'' # r) = None"
  by (induction w) (simp_all add: percent_facts m_colon_def)

lemma match_at_percent: "match_at (CHR ''%'' # r) = None"
  by (simp add: match_at_def percent_facts)

lemma match_at_word_percent:
  "list_all is_word w \<Longrightarrow> match_at (w @ CHR ''%'' # r) = None"
proof (cases w)
  case Nil
  then show ?thesis by (simp add: match_at_percent)
next
  case (Cons c w')
  assume "list_all is_word w"
  with Cons have "is_word c" "list_all is_word w'" by simp_all
  with Cons show ?thesis by (simp add: match_at_def m_word_percent)
qed

lemma match_at_in_sentinel:
  assumes "n < length (sentinel k)"
  shows "match_at (drop n (sentinel k) @ r) = None"
proof -
  let ?ds = "str_nat k"
  consider (a) "n = 0" | (b) "n = 1" | (c) "2 \<le> n" "n - 2 < length ?ds"
    | (d) "2 \<le> n" "length ?ds \<le> n - 2" by linarith
  then show ?thesis
  proof cases
    case a
    then show ?thesis by (simp add: sentinel_def match_at_percent)
  next
    case b
    then show ?thesis by (simp add: sentinel_def match_at_percent)
  next
    case c
    then obtain m where m: "n = Suc (Suc m)" "m < length ?ds"
      by (cases n; cases "n - 1") auto
    have w: "list_all is_word (drop m ?ds)"
      using str_nat_word[of k] by (auto simp: list_all_iff dest: in_set_dropD)
    have "drop n (sentinel k) @ r = drop m ?ds @ CHR ''%'' # (CHR ''%'' # r)"
      using m by (simp add: sentinel_def)
    then show ?thesis using match_at_word_percent[OF w] by simp
  next
    case d
    then obtain m where m: "n = Suc (Suc m)" "length ?ds \<le> m"
      by (cases n; cases "n - 1") auto
    from assms m have "m - length ?ds < 2" by (simp add: sentinel_def)
    then consider "m - length ?ds = 0" | "m - length ?ds = 1" by linarith
    then show ?thesis
      using m by cases (simp_all add: sentinel_def match_at_percent)
  qed
qed

lemma closes_here_stops:
  "c0 \<noteq> CHR 0x5C \<Longrightarrow> c0 \<noteq> d \<Longrightarrow> closes_here d (x @ c0 # r) = Some m \<Longrightarrow> m \<le> length x"
proof (induction d x arbitrary: m rule: closes_here.induct)
  case (1 d)
  then show ?case by (cases r) (auto split: if_splits)
next
  case (2 d c)
  then show ?case by (auto split: if_splits)
next
  case (3 d c c' cs)
  show ?case
  proof (cases "c = CHR 0x5C \<and> c' = CHR 0x5C")
    case True
    with "3.prems"(3) obtain n where n: "closes_here d (cs @ c0 # r) = Some n" "m = n + 2" by auto
    from "3.IH"[OF True "3.prems"(1,2) n(1)] n(2) show ?thesis by simp
  next
    case False
    with "3.prems"(3) have "m = 1" by (auto split: if_splits)
    then show ?thesis by simp
  qed
qed

lemma closes_here_blocked:
  "c0 \<noteq> CHR 0x5C \<Longrightarrow> c0 \<noteq> d \<Longrightarrow> closes_here d (c0 # r) = None"
  by (cases r) auto

lemma lazy_through:
  "\<forall>c\<in>set z. c \<noteq> CHR 0x5C \<and> c \<noteq> d \<Longrightarrow> lazy_body d (z @ v) = Some m \<Longrightarrow>
     closes_here d v \<noteq> None \<or> lazy_body d v \<noteq> None"
proof (induction z arbitrary: m)
  case Nil
  then show ?case by simp
next
  case (Cons c z)
  show ?case
  proof (cases "closes_here d (z @ v)")
    case None
    with Cons.prems(2) obtain n where "lazy_body d (z @ v) = Some n"
      by (auto split: if_splits)
    with Cons.IH[of n] Cons.prems(1) show ?thesis by simp
  next
    case (Some n)
    show ?thesis
    proof (cases z)
      case Nil
      with Some show ?thesis by simp
    next
      case (Cons c1 z1)
      with Cons.prems(1) have "c1 \<noteq> CHR 0x5C" "c1 \<noteq> d" by simp_all
      from closes_here_blocked[OF this, of "z1 @ v"] Some Cons show ?thesis by simp
    qed
  qed
qed

lemma lazy_over:
  "t \<noteq> [] \<Longrightarrow> CHR 0x0A \<notin> set t \<Longrightarrow> last t \<noteq> CHR 0x5C \<Longrightarrow>
   closes_here d v \<noteq> None \<or> lazy_body d v \<noteq> None \<Longrightarrow> lazy_body d (t @ v) \<noteq> None"
proof (induction t)
  case Nil
  then show ?case by simp
next
  case (Cons c t)
  show ?case
  proof (cases "t = []")
    case True
    with Cons.prems show ?thesis by (auto split: option.splits)
  next
    case False
    with Cons.prems Cons.IH have "lazy_body d (t @ v) \<noteq> None" by simp
    with Cons.prems(2) show ?thesis by (auto split: option.splits)
  qed
qed

lemma lazy_replace:
  assumes z: "z = c0 # z'" "\<forall>c\<in>set z. c \<noteq> CHR 0x5C \<and> c \<noteq> d"
    and t: "t \<noteq> []" "CHR 0x0A \<notin> set t" "last t \<noteq> CHR 0x5C"
  shows "lazy_body d (x @ z @ v) = Some m \<Longrightarrow> length x < m \<Longrightarrow> lazy_body d (x @ t @ v) \<noteq> None"
proof (induction x arbitrary: m)
  case Nil
  from lazy_through[OF z(2), of v m] Nil.prems(1)
  have "closes_here d v \<noteq> None \<or> lazy_body d v \<noteq> None" by simp
  from lazy_over[OF t this] show ?case by simp
next
  case (Cons c x)
  from z have c0: "c0 \<noteq> CHR 0x5C" "c0 \<noteq> d" by auto
  have nc: "closes_here d (x @ z @ v) = None \<or> c = CHR 0x5C"
  proof (rule ccontr)
    assume "\<not> ?thesis"
    then obtain n where n: "closes_here d (x @ z @ v) = Some n" "c \<noteq> CHR 0x5C" by auto
    with Cons.prems(1) have "m = Suc n" by simp
    moreover from closes_here_stops[OF c0, of x "z' @ v" n] n(1) z(1) have "n \<le> length x" by simp
    ultimately show False using Cons.prems(2) by simp
  qed
  with Cons.prems(1) obtain n where n: "c \<noteq> CHR 0x0A" "lazy_body d (x @ z @ v) = Some n" "m = Suc n"
    by (auto split: if_splits)
  from Cons.IH[OF n(2)] n(3) Cons.prems(2) have "lazy_body d (x @ t @ v) \<noteq> None" by simp
  with n(1) show ?case by (auto split: option.splits)
qed

lemma body_replace:
  assumes z: "z = c0 # z'" "\<forall>c\<in>set z. c \<noteq> CHR 0x5C \<and> c \<noteq> d"
    and t: "t \<noteq> []" "CHR 0x0A \<notin> set t" "last t \<noteq> CHR 0x5C"
    and m: "m_body d (x @ z @ v) = Some m" "length x < m"
  shows "m_body d (x @ t @ v) \<noteq> None"
proof -
  from z have c0: "c0 \<noteq> CHR 0x5C" "c0 \<noteq> d" by auto
  have "closes_here d (x @ z @ v) = None"
  proof (rule ccontr)
    assume "closes_here d (x @ z @ v) \<noteq> None"
    then obtain n where n: "closes_here d (x @ z @ v) = Some n" by auto
    with m(1) have "m = n" by (simp add: m_body_def)
    moreover from closes_here_stops[OF c0, of x "z' @ v" n] n z(1) have "n \<le> length x" by simp
    ultimately show False using m(2) by simp
  qed
  with m(1) have "lazy_body d (x @ z @ v) = Some m" by (simp add: m_body_def)
  from lazy_replace[OF z t this m(2)] show ?thesis
    by (simp add: m_body_def split: option.splits)
qed

lemma closes_here_last:
  "closes_here d s = Some n \<Longrightarrow> take n s \<noteq> [] \<and> last (take n s) = d"
proof (induction d s arbitrary: n rule: closes_here.induct)
  case (1 d)
  then show ?case by simp
next
  case (2 d c)
  then show ?case by (auto split: if_splits)
next
  case (3 d c c' cs)
  show ?case
  proof (cases "c = CHR 0x5C \<and> c' = CHR 0x5C")
    case True
    with "3.prems" obtain k where k: "closes_here d cs = Some k" "n = k + 2" by auto
    from "3.IH"[OF True k(1)] k(2) show ?thesis by simp
  next
    case False
    with "3.prems" have "c = d" "n = 1" by (auto split: if_splits)
    then show ?thesis by simp
  qed
qed

lemma lazy_body_last:
  "lazy_body d s = Some n \<Longrightarrow> take n s \<noteq> [] \<and> last (take n s) = d"
proof (induction d s arbitrary: n rule: lazy_body.induct)
  case (1 d)
  then show ?case by simp
next
  case (2 d c cs)
  show ?case
  proof (cases "if c \<noteq> CHR 0x5C then closes_here d cs else None")
    case None
    with "2.prems" obtain k where k: "c \<noteq> CHR 0x0A" "lazy_body d cs = Some k" "n = Suc k"
      by (auto split: if_splits)
    from "2.IH"[OF None k(1) k(2)] k(3) show ?thesis by simp
  next
    case (Some k)
    with "2.prems" have n: "n = Suc k" by simp
    from Some have "closes_here d cs = Some k" by (auto split: if_splits)
    from closes_here_last[OF this] n show ?thesis by simp
  qed
qed

lemma m_body_last: "m_body d s = Some n \<Longrightarrow> take n s \<noteq> [] \<and> last (take n s) = d"
  by (auto simp: m_body_def split: option.splits dest: closes_here_last lazy_body_last)

lemma m_delim_last: "m_delim s = Some n \<Longrightarrow> take n s \<noteq> [] \<and> is_delim (last (take n s))"
proof -
  assume "m_delim s = Some n"
  then obtain d b m where s: "s = d # b" "is_delim d" "m_body d b = Some m" "n = Suc m"
    by (auto simp: m_delim_def split: list.splits if_splits)
  from m_body_last[OF s(3)] s show ?thesis by simp
qed

lemma m_sp2_last: "m_sp2 s = Some n \<Longrightarrow> take n s \<noteq> [] \<and> is_delim (last (take n s))"
proof (induction s arbitrary: n)
  case Nil
  then show ?case by simp
next
  case (Cons c cs)
  show ?case
  proof (cases "is_space c")
    case True
    with Cons.prems obtain m where m: "m_sp2 cs = Some m" "n = Suc m" by auto
    from Cons.IH[OF m(1)] m(2) show ?thesis by simp
  next
    case False
    with Cons.prems have "m_delim (c # cs) = Some n" by simp
    then show ?thesis by (rule m_delim_last)
  qed
qed

lemma m_colon_last: "m_colon s = Some n \<Longrightarrow> take n s \<noteq> [] \<and> is_delim (last (take n s))"
proof -
  assume "m_colon s = Some n"
  then obtain cs m where s: "s = CHR '':'' # cs" "m_sp2 cs = Some m" "n = Suc m"
    by (auto simp: m_colon_def split: list.splits if_splits)
  from m_sp2_last[OF s(2)] s show ?thesis by simp
qed

lemma m_sp1_last: "m_sp1 s = Some n \<Longrightarrow> take n s \<noteq> [] \<and> is_delim (last (take n s))"
proof (induction s arbitrary: n)
  case Nil
  then show ?case by simp
next
  case (Cons c cs)
  show ?case
  proof (cases "is_space c")
    case True
    with Cons.prems obtain m where m: "m_sp1 cs = Some m" "n = Suc m" by auto
    from Cons.IH[OF m(1)] m(2) show ?thesis by simp
  next
    case False
    with Cons.prems have "m_colon (c # cs) = Some n" by simp
    then show ?thesis by (rule m_colon_last)
  qed
qed

lemma m_word_last: "m_word s = Some n \<Longrightarrow> take n s \<noteq> [] \<and> is_delim (last (take n s))"
proof (induction s arbitrary: n)
  case Nil
  then show ?case by simp
next
  case (Cons c cs)
  show ?case
  proof (cases "is_word c")
    case True
    with Cons.prems obtain m where m: "m_word cs = Some m" "n = Suc m" by auto
    from Cons.IH[OF m(1)] m(2) show ?thesis by simp
  next
    case False
    with Cons.prems have "m_sp1 (c # cs) = Some n" by simp
    then show ?thesis by (rule m_sp1_last)
  qed
qed

lemma match_at_last: "match_at s = Some n \<Longrightarrow> take n s \<noteq> [] \<and> is_delim (last (take n s))"
proof -
  assume "match_at s = Some n"
  then obtain c cs m where s: "s = c # cs" "m_word cs = Some m" "n = Suc m"
    by (auto simp: match_at_def split: list.splits if_splits)
  from m_word_last[OF s(2)] s show ?thesis by simp
qed

lemma re_search_last:
  assumes "re_search s = Some (i, t)"
  shows "t \<noteq> [] \<and> last t \<noteq> CHR 0x5C"
proof -
  from re_search_Some[OF assms] have "match_at (drop i s) = Some (length t)"
    "t = take (length t) (drop i s)" by simp_all
  with match_at_last[of "drop i s" "length t"] have "t \<noteq> []" "is_delim (last t)" by auto
  then show ?thesis by (auto simp: is_delim_def)
qed

lemma delim_replace:
  assumes z: "z = CHR ''%'' # z'" "list_all inert z"
    and t: "t \<noteq> []" "CHR 0x0A \<notin> set t" "last t \<noteq> CHR 0x5C"
    and m: "m_delim (x @ z @ v) = Some m" "length x < m"
  shows "m_delim (x @ t @ v) \<noteq> None"
proof (cases x)
  case Nil
  with m(1) z(1) show ?thesis by (simp add: m_delim_def percent_facts)
next
  case (Cons d x')
  with m obtain k where k: "is_delim d" "m_body d (x' @ z @ v) = Some k" "length x' < k"
    by (auto simp: m_delim_def split: if_splits)
  from z(2) k(1) have "\<forall>c\<in>set z. c \<noteq> CHR 0x5C \<and> c \<noteq> d"
    by (auto simp: list_all_iff inert_def)
  from body_replace[OF z(1) this t k(2,3)] Cons k(1) show ?thesis
    by (auto simp: m_delim_def)
qed

lemma sp2_replace:
  assumes z: "z = CHR ''%'' # z'" "list_all inert z"
    and t: "t \<noteq> []" "CHR 0x0A \<notin> set t" "last t \<noteq> CHR 0x5C"
  shows "m_sp2 (x @ z @ v) = Some m \<Longrightarrow> length x < m \<Longrightarrow> m_sp2 (x @ t @ v) \<noteq> None"
proof (induction x arbitrary: m)
  case Nil
  then show ?case using z(1) by (simp add: m_delim_def percent_facts)
next
  case (Cons c x)
  show ?case
  proof (cases "is_space c")
    case True
    with Cons.prems obtain k where "m_sp2 (x @ z @ v) = Some k" "length x < k" by auto
    from Cons.IH[OF this] True show ?thesis by auto
  next
    case False
    with Cons.prems have "m_delim ((c # x) @ z @ v) = Some m" by simp
    from delim_replace[OF z t this Cons.prems(2)] False show ?thesis by simp
  qed
qed

lemma colon_replace:
  assumes z: "z = CHR ''%'' # z'" "list_all inert z"
    and t: "t \<noteq> []" "CHR 0x0A \<notin> set t" "last t \<noteq> CHR 0x5C"
    and m: "m_colon (x @ z @ v) = Some m" "length x < m"
  shows "m_colon (x @ t @ v) \<noteq> None"
proof (cases x)
  case Nil
  with m(1) z(1) show ?thesis by (simp add: m_colon_def)
next
  case (Cons c x')
  with m obtain k where k: "c = CHR '':''" "m_sp2 (x' @ z @ v) = Some k" "length x' < k"
    by (auto simp: m_colon_def split: if_splits)
  from sp2_replace[OF z t k(2,3)] Cons k(1) show ?thesis by (auto simp: m_colon_def)
qed

lemma sp1_replace:
  assumes z: "z = CHR ''%'' # z'" "list_all inert z"
    and t: "t \<noteq> []" "CHR 0x0A \<notin> set t" "last t \<noteq> CHR 0x5C"
  shows "m_sp1 (x @ z @ v) = Some m \<Longrightarrow> length x < m \<Longrightarrow> m_sp1 (x @ t @ v) \<noteq> None"
proof (induction x arbitrary: m)
  case Nil
  then show ?case using z(1) by (simp add: m_colon_def percent_facts)
next
  case (Cons c x)
  show ?case
  proof (cases "is_space c")
    case True
    with Cons.prems obtain k where "m_sp1 (x @ z @ v) = Some k" "length x < k" by auto
    from Cons.IH[OF this] True show ?thesis by auto
  next
    case False
    with Cons.prems have "m_colon ((c # x) @ z @ v) = Some m" by simp
    from colon_replace[OF z t this Cons.prems(2)] False show ?thesis by simp
  qed
qed

lemma word_replace:
  assumes z: "z = CHR ''%'' # z'" "list_all inert z"
    and t: "t \<noteq> []" "CHR 0x0A \<notin> set t" "last t \<noteq> CHR 0x5C"
  shows "m_word (x @ z @ v) = Some m \<Longrightarrow> length x < m \<Longrightarrow> m_word (x @ t @ v) \<noteq> None"
proof (induction x arbitrary: m)
  case Nil
  then show ?case using z(1) by (simp add: m_colon_def percent_facts)
next
  case (Cons c x)
  show ?case
  proof (cases "is_word c")
    case True
    with Cons.prems obtain k where "m_word (x @ z @ v) = Some k" "length x < k" by auto
    from Cons.IH[OF this] True show ?thesis by auto
  next
    case False
    with Cons.prems have "m_sp1 ((c # x) @ z @ v) = Some m" by simp
    from sp1_replace[OF z t this Cons.prems(2)] False show ?thesis by simp
  qed
qed

lemma match_replace:
  assumes z: "z = CHR ''%'' # z'" "list_all inert z"
    and t: "t \<noteq> []" "CHR 0x0A \<notin> set t" "last t \<noteq> CHR 0x5C"
    and m: "match_at (x @ z @ v) = Some m" "length x < m"
  shows "match_at (x @ t @ v) \<noteq> None"
proof (cases x)
  case Nil
  with m(1) z(1) show ?thesis by (simp add: match_at_def percent_facts)
next
  case (Cons c x')
  with m obtain k where k: "is_word c" "m_word (x' @ z @ v) = Some k" "length x' < k"
    by (auto simp: match_at_def split: if_splits)
  from word_replace[OF z t k(2,3)] Cons k(1) show ?thesis by (auto simp: match_at_def)
qed

lemma take_drop_middle:
  "n \<le> length x \<Longrightarrow> take n (x @ y) @ drop n x @ w = x @ w"
  by simp

lemma next_match_right:
  assumes s: "re_search s = Some (i, t)" and nl: "CHR 0x0A \<notin> set t"
    and n: "re_search (take i s @ sentinel k @ drop (i + length t) s) = Some (j, t')"
  shows "i + length (sentinel k) \<le> j"
proof (rule ccontr)
  assume "\<not> i + length (sentinel k) \<le> j"
  then have j: "j < i + length (sentinel k)" by simp
  let ?u = "take i s" and ?v = "drop (i + length t) s"
  from re_search_Some[OF s] have il: "i \<le> length s"
    and left: "\<forall>j<i. match_at (drop j s) = None" by simp_all
  then have lu: "length ?u = i" by simp
  from re_search_Some[OF n] have mj: "match_at (drop j (?u @ sentinel k @ ?v)) = Some (length t')"
    by simp
  show False
  proof (cases "i \<le> j")
    case True
    with j have "j - i < length (sentinel k)" by simp
    from match_at_in_sentinel[OF this, of ?v]
    have "match_at (drop (j - i) (sentinel k) @ ?v) = None" .
    moreover have "drop j (?u @ sentinel k @ ?v) = drop (j - i) (sentinel k) @ ?v"
      using True lu \<open>j - i < length (sentinel k)\<close> by simp
    ultimately show False using mj by simp
  next
    case False
    then have ji: "j < i" by simp
    let ?x = "drop j ?u"
    have lx: "length ?x = i - j" using lu by simp
    have d': "drop j (?u @ sentinel k @ ?v) = ?x @ sentinel k @ ?v" using ji lu by simp
    have d: "drop j s = ?x @ t @ ?v"
    proof -
      have "drop j s = drop j (?u @ t @ ?v)" using re_search_split[OF s] by simp
      then show ?thesis using ji lu by simp
    qed
    from left ji have none: "match_at (?x @ t @ ?v) = None" unfolding d[symmetric] by blast
    from mj have m: "match_at (?x @ sentinel k @ ?v) = Some (length t')" unfolding d' .
    show False
    proof (cases "length ?x < length t'")
      case True
      obtain z' where z: "sentinel k = CHR ''%'' # z'" using sentinel_Cons by blast
      from re_search_last[OF s] have t: "t \<noteq> []" "last t \<noteq> CHR 0x5C" by simp_all
      from match_replace[OF z sentinel_inert t(1) nl t(2) m True] none show False by simp
    next
      case False
      then have le: "length t' \<le> length ?x" by simp
      from match_at_take[OF m, of "drop (length t') ?x @ t @ ?v"]
      obtain n' where "match_at (take (length t') (?x @ sentinel k @ ?v) @
          drop (length t') ?x @ t @ ?v) = Some n'" by blast
      moreover have "take (length t') (?x @ sentinel k @ ?v) @ drop (length t') ?x @ t @ ?v
          = ?x @ t @ ?v" by (rule take_drop_middle[OF le])
      ultimately have "match_at (?x @ t @ ?v) = Some n'" by (simp only:)
      with none show False by (simp only: option.distinct)
    qed
  qed
qed

section \<open>One step of the protection loop\<close>





section \<open>Protection followed by restoration\<close>

text \<open>
  Claim C3 fails on the code. With no compound tag, \<open>_preprocess\<close> is protection
  followed by restoration. When the input already holds the text of a sentinel, the
  restoration replaces that text and not the sentinel the protection wrote:
  \<open>%%1%% a:"x"\<close> comes back as \<open>a:"x" %%1%%\<close>.
\<close>

theorem round_trip_fails:
  "protect percent_query 0 [] = (''%%1%% %%1%%'', 1, [(1, ''a:'' @ [dq] @ ''x'' @ [dq])])
   \<and> restore [(1, ''a:'' @ [dq] @ ''x'' @ [dq])] ''%%1%% %%1%%'' = ''a:'' @ [dq] @ ''x'' @ [dq] @ '' %%1%%''
   \<and> query (preprocess (demo_env\<lparr>get_all_tags := []\<rparr>) (init percent_query False))
        = ''a:'' @ [dq] @ ''x'' @ [dq] @ '' %%1%%''
   \<and> error (preprocess (demo_env\<lparr>get_all_tags := []\<rparr>) (init percent_query False)) = None
   \<and> query (preprocess (demo_env\<lparr>get_all_tags := []\<rparr>) (init percent_query False)) \<noteq> percent_query"
  by code_simp

text \<open>
  The round trip also fails on an input without any percent sign: in \<open>nested_literal\<close>
  the second stored literal contains the first sentinel, and the restoration, which
  goes through the indices in ascending order, looks for sentinel 1 before sentinel 2
  has been put back.
\<close>

lemma nested_round_trip:
  "query (preprocess (demo_env\<lparr>get_all_tags := []\<rparr>) (init nested_literal False)) = ''k:/x %%1%% /''
   \<and> error (preprocess (demo_env\<lparr>get_all_tags := []\<rparr>) (init nested_literal False)) = None
   \<and> query (preprocess (demo_env\<lparr>get_all_tags := []\<rparr>) (init nested_literal False)) \<noteq> nested_literal"
  by code_simp

text \<open>
  Where the round trip does hold: for an input with no percent sign and no line feed,
  every match lies to the right of the sentinels already written, every sentinel is the
  first occurrence of its own text when its turn comes in the restoration, and
  protection followed by restoration gives the input back. With no compound tag
  \<open>_preprocess\<close> is then the identity on the query and sets no error.
\<close>

lemma replace_first_sentinel:
  assumes "CHR ''%'' \<notin> set o'"
  shows "replace_first (sentinel k) t (o' @ sentinel k @ r) = o' @ t @ r"
proof (rule replace_first_at[OF refl])
  show "\<forall>j<length o'. \<not> prefix (sentinel k) (drop j (o' @ sentinel k @ r))"
  proof (intro allI impI)
    fix j assume j: "j < length o'"
    then obtain c cs where d: "drop j o' = c # cs" by (cases "drop j o'") auto
    then have "c \<in> set o'" by (metis in_set_dropD list.set_intros(1))
    with assms have "c \<noteq> CHR ''%''" by auto
    moreover have "drop j (o' @ sentinel k @ r) = c # cs @ sentinel k @ r" using j d by simp
    ultimately show "\<not> prefix (sentinel k) (drop j (o' @ sentinel k @ r))"
      by (simp add: sentinel_def)
  qed
qed

lemma restore_snoc: "restore (m @ [(k, t)]) x = replace_first (sentinel k) t (restore m x)"
  by (induction m arbitrary: x) auto

lemma protect_restore_inv:
  "protect q index m = (q', n, m') \<Longrightarrow> q = p @ r \<Longrightarrow>
   (\<forall>r'. restore m (p @ r') = o' @ r') \<Longrightarrow>
   CHR ''%'' \<notin> set o' \<Longrightarrow> CHR ''%'' \<notin> set r \<Longrightarrow> CHR 0x0A \<notin> set r \<Longrightarrow>
   (\<forall>j t. re_search q = Some (j, t) \<longrightarrow> length p \<le> j) \<Longrightarrow>
   restore m' q' = o' @ r"
proof (induction q index m arbitrary: p r o' rule: protect.induct)
  case (1 q index m)
  show ?case
  proof (cases "re_search q")
    case None
    with "1.prems"(1) have "q' = q" "m' = m" by (simp_all add: protect.simps)
    with "1.prems"(2,3) show ?thesis by simp
  next
    case (Some x)
    obtain j t where x: "x = (j, t)" by (cases x)
    with Some have rs: "re_search q = Some (j, t)" by simp
    let ?S = "sentinel (index + 1)"
    let ?q2 = "replace_first t ?S q"
    from "1.prems"(1) rs have p2: "protect ?q2 (index + 1) (m @ [(index + 1, t)]) = (q', n, m')"
      by (simp add: protect.simps)
    from "1.prems"(7) rs have pj: "length p \<le> j" by blast
    from re_search_Some[OF rs] have jl: "j + length t \<le> length q"
      and tt: "t = take (length t) (drop j q)" by simp_all
    define r1 where "r1 = take (j - length p) r"
    define r2 where "r2 = drop (j - length p + length t) r"
    have tj: "take j q = p @ r1" using pj "1.prems"(2) by (simp add: r1_def)
    have dj: "drop (j + length t) q = r2" using pj "1.prems"(2) by (simp add: r2_def)
    have t_r: "t = take (length t) (drop (j - length p) r)"
      using tt pj "1.prems"(2) by simp
    have r: "r = r1 @ t @ r2"
    proof -
      have "r = take (j - length p) r @ take (length t) (drop (j - length p) r) @
          drop (length t) (drop (j - length p) r)" by (metis append_take_drop_id)
      then show ?thesis using t_r by (simp add: r1_def r2_def add.commute)
    qed
    have q2: "?q2 = (p @ r1 @ ?S) @ r2"
      using protect_replace[OF rs, of ?S] tj dj by simp
    have i1: "\<forall>r'. restore (m @ [(index + 1, t)]) ((p @ r1 @ ?S) @ r') = (o' @ r1 @ t) @ r'"
    proof
      fix r'
      have "restore (m @ [(index + 1, t)]) ((p @ r1 @ ?S) @ r')
          = replace_first ?S t (restore m (p @ (r1 @ ?S @ r')))" by (simp add: restore_snoc)
      also have "\<dots> = replace_first ?S t ((o' @ r1) @ ?S @ r')"
        using "1.prems"(3) by simp
      also have "\<dots> = (o' @ r1) @ t @ r'"
        by (rule replace_first_sentinel) (use "1.prems"(4,5) r in auto)
      finally show "restore (m @ [(index + 1, t)]) ((p @ r1 @ ?S) @ r') = (o' @ r1 @ t) @ r'"
        by simp
    qed
    have i2: "CHR ''%'' \<notin> set (o' @ r1 @ t)" "CHR ''%'' \<notin> set r2" "CHR 0x0A \<notin> set r2"
      using "1.prems"(4,5,6) r by auto
    have nl: "CHR 0x0A \<notin> set t" using "1.prems"(6) r by auto
    have i3: "\<forall>j2 t2. re_search ?q2 = Some (j2, t2) \<longrightarrow> length (p @ r1 @ ?S) \<le> j2"
    proof (intro allI impI)
      fix j2 t2 assume "re_search ?q2 = Some (j2, t2)"
      then have "re_search (take j q @ ?S @ drop (j + length t) q) = Some (j2, t2)"
        by (simp add: protect_replace[OF rs])
      from next_match_right[OF rs nl this] have "j + length ?S \<le> j2" .
      moreover have "length (p @ r1) = j" using tj jl by (metis length_take min.absorb2 add_leD1)
      ultimately show "length (p @ r1 @ ?S) \<le> j2" by simp
    qed
    from "1.IH"[OF Some x[symmetric] p2 q2 i1 i2 i3] have "restore m' q' = (o' @ r1 @ t) @ r2" .
    with r show ?thesis by simp
  qed
qed

lemma protect_restore_plain:
  assumes "CHR ''%'' \<notin> set q" "CHR 0x0A \<notin> set q" "protect q 0 [] = (q', n, m)"
  shows "restore m q' = q"
  using protect_restore_inv[OF assms(3), of "[]" q "[]"] assms(1,2) by simp

lemma expand_loop_no_tags:
  "expand_loop [] MAXIMUM_DEPTH s [] 0 = (s, if s = [] then 0 else 1, False)"
proof (cases "s = []")
  case True
  then show ?thesis by (simp add: expand_loop.simps)
next
  case False
  have "expand_loop [] MAXIMUM_DEPTH s [] 0 = expand_loop [] MAXIMUM_DEPTH s s 1"
    using False
    by (subst expand_loop.simps) (simp add: expand_pass_def MAXIMUM_DEPTH_def)
  also have "\<dots> = (s, 1, False)" by (subst expand_loop.simps) simp
  finally show ?thesis using False by simp
qed

lemma preprocess_plain_identity:
  assumes "get_all_tags env = []" "CHR ''%'' \<notin> set q" "CHR 0x0A \<notin> set q"
  shows "query (preprocess env (init q False)) = q \<and> error (preprocess env (init q False)) = None"
proof -
  obtain q' n m where p: "protect q 0 [] = (q', n, m)" by (cases "protect q 0 []") auto
  from protect_restore_plain[OF assms(2,3) p] have "restore m q' = q" .
  with p assms(1) show ?thesis by (simp add: preprocess_def expand_loop_no_tags)
qed

section \<open>Sentinels under expansion\<close>

text \<open>
  Claim C5 fails on the code. The digits of a sentinel are a whole word between two
  percent signs, so a compound tag whose label is the decimal numeral of an index is
  expanded inside the sentinel. For the query \<open>a:"x"\<close> and the compound tag \<open>1\<close>
  defined as \<open>cat\<close>, protection gives \<open>%%1%%\<close>, the expansion turns it into
  \<open>%%(cat)%%\<close>, the restoration finds no sentinel, and the query handed to the compiler
  is \<open>%%(cat)%%\<close>, with no error reported by the preprocessing.
\<close>

theorem sentinel_altered_by_numeric_label:
  "fst (protect quoted_x 0 []) = ''%%1%%''
   \<and> expand_pass [\<lparr>label = ''1'', defn = ''cat''\<rparr>] ''%%1%%'' = ''%%(cat)%%''
   \<and> query (preprocess (demo_env\<lparr>get_all_tags := [\<lparr>label = ''1'', defn = ''cat''\<rparr>]\<rparr>)
        (init quoted_x False)) = ''%%(cat)%%''
   \<and> error (preprocess (demo_env\<lparr>get_all_tags := [\<lparr>label = ''1'', defn = ''cat''\<rparr>]\<rparr>)
        (init quoted_x False)) = None"
  by code_simp

section \<open>Self-referential compound tags\<close>





lemma boundary_Nil [simp]: "boundary []"
  by (simp add: boundary_def)

lemma boundary_Cons [simp]: "boundary (c # cs) = (\<not> is_word c)"
  by (simp add: boundary_def)

lemma boundary_append: "boundary (x @ y) = (if x = [] then boundary y else boundary x)"
  by (cases x) simp_all

lemma sub_Nil: "L \<noteq> [] \<Longrightarrow> re_sub_tag L D st [] = []"
  by simp











declare re_sub_tag.simps [simp del]





lemma parens_Nil [simp]: "parens [] = 0"
  by (simp add: parens_def)


lemma parens_open [simp]: "parens ''('' = 1"
  by (simp add: parens_def)



















end
